theory Spec2Isabelle
  imports Main "HOL-Library.AList"
begin

section \<open>Python strings and slices\<close>

text \<open>
  A Python \<open>str\<close> is a sequence of Unicode code points, and \<open>len\<close>, \<open>strip\<close>, the
  regular expressions and the slices of the source all count code points. A string is
  therefore a list of code points (natural numbers); \<open>str\<close> turns an ASCII literal into
  such a list.
\<close>

type_synonym codepoint = nat
type_synonym pystr = "codepoint list"

definition str :: "string \<Rightarrow> pystr" where
  "str cs = map of_char cs"

text \<open>
  \<open>xs[start:stop]\<close> for integer bounds: a negative bound counts from the end and is
  clamped at 0, a non-negative one is clamped at the length; the slice is empty when the
  stop does not lie after the start.
\<close>

definition slice_index :: "nat \<Rightarrow> int \<Rightarrow> nat" where
  "slice_index len i = (if i < 0 then nat (int len + i) else min (nat i) len)"

definition py_slice :: "'a list \<Rightarrow> int \<Rightarrow> int \<Rightarrow> 'a list" where
  "py_slice xs start stop =
     (let a = slice_index (length xs) start;
          b = slice_index (length xs) stop
      in take (b - a) (drop a xs))"

text \<open>\<open>v.startswith(p)\<close>, \<open>v.endswith(p)\<close> and \<open>p in v\<close> on strings.\<close>

definition startswith :: "pystr \<Rightarrow> pystr \<Rightarrow> bool" where
  "startswith v p = (take (length p) v = p)"

definition endswith :: "pystr \<Rightarrow> pystr \<Rightarrow> bool" where
  "endswith v p = (length p \<le> length v \<and> drop (length v - length p) v = p)"

fun contains :: "pystr \<Rightarrow> pystr \<Rightarrow> bool" where
  "contains p [] = (p = [])"
| "contains p (c # cs) = (startswith (c # cs) p \<or> contains p cs)"

text \<open>
  The characters \<open>str.strip()\<close> removes when called without an argument: those for which
  \<open>str.isspace\<close> holds.
\<close>

definition isspace :: "codepoint \<Rightarrow> bool" where
  "isspace c \<longleftrightarrow>
     (0x09 \<le> c \<and> c \<le> 0x0D) \<or> (0x1C \<le> c \<and> c \<le> 0x1F) \<or> c = 0x20 \<or> c = 0x85 \<or>
     c = 0xA0 \<or> c = 0x1680 \<or> (0x2000 \<le> c \<and> c \<le> 0x200A) \<or> c = 0x2028 \<or>
     c = 0x2029 \<or> c = 0x202F \<or> c = 0x205F \<or> c = 0x3000"

definition strip :: "pystr \<Rightarrow> pystr" where
  "strip v = rev (dropWhile isspace (rev (dropWhile isspace v)))"

section \<open>app/core/security.py\<close>

subsection \<open>sanitize\_string\<close>

text \<open>The character class \<open>[\x00-\x1f\x7f-\x9f]\<close> of the substitution.\<close>

definition is_control :: "codepoint \<Rightarrow> bool" where
  "is_control c \<longleftrightarrow> c \<le> 0x1F \<or> (0x7F \<le> c \<and> c \<le> 0x9F)"

text \<open>\<open>re.sub(r"[\x00-\x1f\x7f-\x9f]", "", v)\<close>: every character of the class is deleted.\<close>

definition re_sub_control :: "pystr \<Rightarrow> pystr" where
  "re_sub_control v = filter (\<lambda>c. \<not> is_control c) v"

definition sanitize_string :: "pystr \<Rightarrow> int \<Rightarrow> pystr" where
  "sanitize_string v max_length =
     (if v = [] then []
      else
        let sanitized = strip v;
            sanitized = re_sub_control sanitized
        in if int (length sanitized) > max_length
           then py_slice sanitized 0 max_length
           else sanitized)"

subsection \<open>validate\_slug\<close>

datatype slug_error = SlugEmpty | SlugCharset | SlugHyphenEdge | SlugDoubleHyphen

text \<open>The character class \<open>[a-z0-9-]\<close>.\<close>

definition slug_char :: "codepoint \<Rightarrow> bool" where
  "slug_char c \<longleftrightarrow> (0x61 \<le> c \<and> c \<le> 0x7A) \<or> (0x30 \<le> c \<and> c \<le> 0x39) \<or> c = 0x2D"

text \<open>
  \<open>re.match(r"^[a-z0-9-]+$", v)\<close>. The greedy class takes the longest run of class
  characters at the start of the string, which must not be empty; no shorter run can
  succeed, since it is followed by a class character. Without the \<open>MULTILINE\<close> flag, \<open>$\<close>
  then matches at the end of the string and also just before a newline that is the last
  character of the string.
\<close>

definition dollar :: "pystr \<Rightarrow> bool" where
  "dollar rest \<longleftrightarrow> rest = [] \<or> rest = [0x0A]"

definition re_match_slug :: "pystr \<Rightarrow> bool" where
  "re_match_slug v \<longleftrightarrow> takeWhile slug_char v \<noteq> [] \<and> dollar (dropWhile slug_char v)"

definition validate_slug :: "pystr \<Rightarrow> slug_error + pystr" where
  "validate_slug v =
     (if v = [] then Inl SlugEmpty
      else if \<not> re_match_slug v then Inl SlugCharset
      else if startswith v (str ''-'') \<or> endswith v (str ''-'') then Inl SlugHyphenEdge
      else if contains (str ''--'') v then Inl SlugDoubleHyphen
      else Inr v)"

section \<open>app/models/item.py\<close>

text \<open>
  The models are pydantic (version 2) classes. Constructing one validates every field in
  declaration order: first the constraints of its \<open>Field(...)\<close> (the type and the
  length bounds), then the \<open>field_validator\<close> of the field, which runs in the default
  mode \<open>after\<close>, on a value that has passed the constraints. The errors of all fields are
  collected into one \<open>ValidationError\<close>. A \<open>ValueError\<close> raised inside a field
  validator becomes an entry of that \<open>ValidationError\<close> as well.
\<close>

type_synonym datetime = int

datatype field_error = StringType | StringTooShort | StringTooLong | ValueError slug_error

datatype error =
    DuplicateSlug pystr
  | ValidationError "(string \<times> field_error) list"
  | KeyError

text \<open>
  \<open>ItemBase\<close>. The annotation of \<open>name\<close> is \<open>str\<close>, but an attribute of a Python
  object holds whatever is assigned to it, and \<open>update_item\<close> can assign \<open>None\<close>; so the
  field holds an optional string.
\<close>

record ItemBase =
  name :: "pystr option"
  slug :: pystr
  description :: "pystr option"

text \<open>\<open>name: str = Field(..., min_length=1, max_length=200)\<close>, then \<open>sanitize_name\<close>.\<close>

definition name_field :: "pystr option \<Rightarrow> field_error + pystr option" where
  "name_field v =
     (case v of
        None \<Rightarrow> Inl StringType
      | Some v \<Rightarrow>
          if length v < 1 then Inl StringTooShort
          else if length v > 200 then Inl StringTooLong
          else Inr (Some (sanitize_string v 200)))"

text \<open>\<open>slug: str = Field(..., min_length=1, max_length=100)\<close>, then \<open>validate_slug_field\<close>.\<close>

definition slug_field :: "pystr \<Rightarrow> field_error + pystr" where
  "slug_field v =
     (if length v < 1 then Inl StringTooShort
      else if length v > 100 then Inl StringTooLong
      else case validate_slug v of Inl e \<Rightarrow> Inl (ValueError e) | Inr v' \<Rightarrow> Inr v')"

text \<open>
  \<open>description: str | None = Field(None, max_length=1000)\<close>, then
  \<open>sanitize_description\<close>.
\<close>

definition description_field :: "pystr option \<Rightarrow> field_error + pystr option" where
  "description_field v =
     (case v of
        None \<Rightarrow> Inr None
      | Some v \<Rightarrow>
          if length v > 1000 then Inl StringTooLong
          else Inr (Some (sanitize_string v 1000)))"

definition field_errors :: "string \<Rightarrow> field_error + 'a \<Rightarrow> (string \<times> field_error) list" where
  "field_errors f r = (case r of Inl e \<Rightarrow> [(f, e)] | Inr _ \<Rightarrow> [])"

text \<open>The validation of the three fields \<open>ItemBase\<close> declares, shared by its subclasses.\<close>

definition ItemBase_validate ::
  "pystr option \<Rightarrow> pystr \<Rightarrow> pystr option \<Rightarrow> error + ItemBase" where
  "ItemBase_validate n s d =
     (case (name_field n, slug_field s, description_field d) of
        (Inr n', Inr s', Inr d') \<Rightarrow> Inr \<lparr>name = n', slug = s', description = d'\<rparr>
      | (rn, rs, rd) \<Rightarrow>
          Inl (ValidationError
                 (field_errors ''name'' rn @ field_errors ''slug'' rs @
                  field_errors ''description'' rd)))"

text \<open>\<open>ItemCreate(name=n, slug=s, description=d)\<close>: the class adds nothing to its base.\<close>

type_synonym ItemCreate = ItemBase

definition ItemCreate_new :: "pystr option \<Rightarrow> pystr \<Rightarrow> pystr option \<Rightarrow> error + ItemCreate" where
  "ItemCreate_new n s d = ItemBase_validate n s d"

text \<open>
  \<open>Item\<close> extends \<open>ItemBase\<close>, and so inherits its constraints and validators: they run
  again whenever an \<open>Item\<close> is constructed. The three added fields are given values of
  their declared types by the only caller. The field \<open>id\<close> is called \<open>item_id\<close> here.
\<close>

record Item = ItemBase +
  item_id :: int
  created_at :: datetime
  updated_at :: datetime

definition Item_new ::
  "int \<Rightarrow> pystr option \<Rightarrow> pystr \<Rightarrow> pystr option \<Rightarrow> datetime \<Rightarrow> datetime \<Rightarrow> error + Item" where
  "Item_new i n s d c u =
     (case ItemBase_validate n s d of
        Inl e \<Rightarrow> Inl e
      | Inr b \<Rightarrow>
          Inr \<lparr>name = name b, slug = slug b, description = description b,
               item_id = i, created_at = c, updated_at = u\<rparr>)"

text \<open>
  \<open>ItemUpdate\<close> has the two optional fields \<open>name\<close> and \<open>description\<close>, both with default
  \<open>None\<close>, and pydantic records in \<open>model_fields_set\<close> which of them the constructor was
  given. An argument of the constructor is absent (\<open>None\<close>), or present with a value that
  may itself be \<open>None\<close>.
\<close>

datatype update_field = Name | Description

record ItemUpdate =
  name_upd :: "pystr option"
  description_upd :: "pystr option"
  model_fields_set :: "update_field set"

text \<open>\<open>name: str | None = Field(None, min_length=1, max_length=200)\<close>, then \<open>sanitize_name\<close>.\<close>

definition name_upd_field :: "pystr option \<Rightarrow> field_error + pystr option" where
  "name_upd_field v =
     (case v of
        None \<Rightarrow> Inr None
      | Some v \<Rightarrow>
          if length v < 1 then Inl StringTooShort
          else if length v > 200 then Inl StringTooLong
          else Inr (Some (sanitize_string v 200)))"

text \<open>A field the constructor is not given keeps its default and is not validated.\<close>

definition given ::
  "'a option option \<Rightarrow> ('a option \<Rightarrow> field_error + 'a option) \<Rightarrow> field_error + 'a option" where
  "given arg validate = (case arg of None \<Rightarrow> Inr None | Some v \<Rightarrow> validate v)"

definition ItemUpdate_new ::
  "pystr option option \<Rightarrow> pystr option option \<Rightarrow> error + ItemUpdate" where
  "ItemUpdate_new n d =
     (case (given n name_upd_field, given d description_field) of
        (Inr n', Inr d') \<Rightarrow>
          Inr \<lparr>name_upd = n', description_upd = d',
               model_fields_set = (if n = None then {} else {Name}) \<union>
                                  (if d = None then {} else {Description})\<rparr>
      | (rn, rd) \<Rightarrow>
          Inl (ValidationError
                 (field_errors ''name'' rn @ field_errors ''description'' rd)))"

text \<open>
  \<open>data.model_dump(exclude_unset=True)\<close>: the fields of \<open>model_fields_set\<close> with their
  values, in declaration order.
\<close>

definition model_dump_exclude_unset :: "ItemUpdate \<Rightarrow> (update_field \<times> pystr option) list" where
  "model_dump_exclude_unset data =
     (if Name \<in> model_fields_set data then [(Name, name_upd data)] else []) @
     (if Description \<in> model_fields_set data then [(Description, description_upd data)] else [])"

text \<open>
  \<open>setattr(item, field, value)\<close>. The configuration of \<open>Item\<close> does not set
  \<open>validate_assignment\<close>, so the assignment stores the value as it is.
\<close>

fun setattr :: "Item \<Rightarrow> update_field \<Rightarrow> pystr option \<Rightarrow> Item" where
  "setattr item Name v = item\<lparr>name := v\<rparr>"
| "setattr item Description v = item\<lparr>description := v\<rparr>"

section \<open>app/services/item\_service.py\<close>

text \<open>
  The dictionaries are association lists in insertion order, as a Python \<open>dict\<close> keeps
  its entries: \<open>d[k] = v\<close> replaces the value of an existing key in place and appends a
  new key, \<open>del d[k]\<close> removes the entry, \<open>d.get(k)\<close> is \<open>map_of\<close>. The clock
  \<open>datetime.utcnow()\<close> is an argument of the operations that read it. Every operation
  returns the service state it leaves behind, also when it raises.
\<close>

record ItemService =
  items :: "(int \<times> Item) list"
  next_id :: int
  slug_index :: "(pystr \<times> int) list"

definition init :: ItemService where
  "init = \<lparr>items = [], next_id = 1, slug_index = []\<rparr>"

definition create_item :: "ItemService \<Rightarrow> ItemCreate \<Rightarrow> datetime \<Rightarrow> (error + Item) \<times> ItemService" where
  "create_item s data now =
     (if map_of (slug_index s) (slug data) \<noteq> None then (Inl (DuplicateSlug (slug data)), s)
      else
        case Item_new (next_id s) (name data) (slug data) (description data) now now of
          Inl e \<Rightarrow> (Inl e, s)
        | Inr item \<Rightarrow>
            (Inr item,
             s\<lparr>items := AList.update (item_id item) item (items s),
               slug_index := AList.update (slug item) (item_id item) (slug_index s),
               next_id := next_id s + 1\<rparr>))"

definition get_item :: "ItemService \<Rightarrow> int \<Rightarrow> Item option" where
  "get_item s i = map_of (items s) i"

definition get_item_by_slug :: "ItemService \<Rightarrow> pystr \<Rightarrow> Item option" where
  "get_item_by_slug s sl =
     (case map_of (slug_index s) sl of
        None \<Rightarrow> None
      | Some i \<Rightarrow> map_of (items s) i)"

text \<open>\<open>sorted\<close> is stable, as \<open>sort_key\<close> is.\<close>

definition list_items :: "ItemService \<Rightarrow> int \<Rightarrow> int \<Rightarrow> Item list" where
  "list_items s skip limit =
     (let all_items = sort_key item_id (map snd (items s))
      in py_slice all_items skip (skip + limit))"

text \<open>
  \<open>update_item\<close> changes the \<open>Item\<close> object the dictionary holds, so the entry keeps its
  place in the dictionary.
\<close>

definition update_item ::
  "ItemService \<Rightarrow> int \<Rightarrow> ItemUpdate \<Rightarrow> datetime \<Rightarrow> Item option \<times> ItemService" where
  "update_item s i data now =
     (case map_of (items s) i of
        None \<Rightarrow> (None, s)
      | Some item \<Rightarrow>
          let update_data = model_dump_exclude_unset data;
              item = fold (\<lambda>(field, v) it. setattr it field v) update_data item;
              item = item\<lparr>updated_at := now\<rparr>
          in (Some item, s\<lparr>items := AList.update i item (items s)\<rparr>))"

text \<open>
  \<open>del self._slug_index[item.slug]\<close> raises \<open>KeyError\<close> when the slug is not a key, after
  the item has been removed from \<open>_items\<close>.
\<close>

definition delete_item :: "ItemService \<Rightarrow> int \<Rightarrow> (error + bool) \<times> ItemService" where
  "delete_item s i =
     (case map_of (items s) i of
        None \<Rightarrow> (Inr False, s)
      | Some item \<Rightarrow>
          let s1 = s\<lparr>items := AList.delete i (items s)\<rparr>
          in if map_of (slug_index s1) (slug item) = None then (Inl KeyError, s1)
             else (Inr True, s1\<lparr>slug_index := AList.delete (slug item) (slug_index s1)\<rparr>))"

text \<open>
  The states of a service: the fresh one, and those the three mutating operations lead
  to, whatever their arguments and whether they succeed or not.
\<close>

inductive reachable :: "ItemService \<Rightarrow> bool" where
  r_init: "reachable init"
| r_create: "reachable s \<Longrightarrow> reachable (snd (create_item s data now))"
| r_update: "reachable s \<Longrightarrow> reachable (snd (update_item s i upd now))"
| r_delete: "reachable s \<Longrightarrow> reachable (snd (delete_item s i))"

text \<open>\<open>later s s'\<close>: the service gets from state \<open>s\<close> to state \<open>s'\<close> by such operations.\<close>

inductive later :: "ItemService \<Rightarrow> ItemService \<Rightarrow> bool" where
  l_refl: "later s s"
| l_create: "later s s' \<Longrightarrow> later s (snd (create_item s' data now))"
| l_update: "later s s' \<Longrightarrow> later s (snd (update_item s' i upd now))"
| l_delete: "later s s' \<Longrightarrow> later s (snd (delete_item s' i))"

section \<open>Invariants of the service\<close>

text \<open>
  The two dictionaries agree: the slug of every stored item is indexed under the key of
  the item, and every indexed slug leads to a stored item that has this slug.
\<close>

definition indexes_consistent :: "ItemService \<Rightarrow> bool" where
  "indexes_consistent s \<longleftrightarrow>
     (\<forall>i item. map_of (items s) i = Some item \<longrightarrow> map_of (slug_index s) (slug item) = Some i) \<and>
     (\<forall>sl i. map_of (slug_index s) sl = Some i \<longrightarrow>
        (\<exists>item. map_of (items s) i = Some item \<and> slug item = sl))"

text \<open>No two stored items have the same slug.\<close>

definition slugs_unique :: "ItemService \<Rightarrow> bool" where
  "slugs_unique s \<longleftrightarrow>
     (\<forall>i j a b. map_of (items s) i = Some a \<and> map_of (items s) j = Some b \<and> slug a = slug b
        \<longrightarrow> i = j)"

text \<open>
  What every reachable state satisfies besides: the keys of a dictionary are distinct, an
  item is stored under its own \<open>id\<close>, which is positive and below the counter, and its slug
  passes the validation of the slug field.
\<close>

definition store_inv :: "ItemService \<Rightarrow> bool" where
  "store_inv s \<longleftrightarrow>
     indexes_consistent s \<and>
     distinct (map fst (items s)) \<and>
     distinct (map fst (slug_index s)) \<and>
     (\<forall>i item. map_of (items s) i = Some item \<longrightarrow>
        item_id item = i \<and> 1 \<le> i \<and> i < next_id s \<and> slug_field (slug item) = Inr (slug item)) \<and>
     1 \<le> next_id s"

text \<open>
  An auxiliary notion for the proofs, not a function of the source: the item with the
  fields of \<open>model_fields_set\<close> overwritten and \<open>updated_at\<close> set. That \<open>update_item\<close>
  stores and returns this item is the lemma \<open>update_item_present\<close>.
\<close>

definition updated :: "Item \<Rightarrow> ItemUpdate \<Rightarrow> datetime \<Rightarrow> Item" where
  "updated item upd now =
     item\<lparr>name := (if Name \<in> model_fields_set upd then name_upd upd else name item),
          description := (if Description \<in> model_fields_set upd then description_upd upd
                          else description item),
          updated_at := now\<rparr>"

section \<open>Sanitization and slug validation\<close>

lemmas string_defs = str_def strip_def isspace_def re_sub_control_def is_control_def
  py_slice_def slice_index_def slug_char_def startswith_def endswith_def dollar_def
  re_match_slug_def

lemma py_slice_prefix: "0 \<le> n \<Longrightarrow> py_slice xs 0 n = take (nat n) xs"
  by (simp add: py_slice_def slice_index_def min_def)

lemma strip_Nil: "strip [] = []"
  by (simp add: strip_def)

text \<open>
  \<open>strip\<close> removes a block of whitespace at either end, and what it leaves neither starts
  nor ends with whitespace.
\<close>

lemma strip_trims:
  "\<exists>a b. v = a @ strip v @ b \<and> (\<forall>c\<in>set a. isspace c) \<and> (\<forall>c\<in>set b. isspace c) \<and>
         (strip v \<noteq> [] \<longrightarrow> \<not> isspace (hd (strip v)) \<and> \<not> isspace (last (strip v)))"
proof -
  define w where "w = dropWhile isspace v"
  define a where "a = takeWhile isspace v"
  define b where "b = rev (takeWhile isspace (rev w))"
  have sv: "strip v = rev (dropWhile isspace (rev w))"
    by (simp add: strip_def w_def)
  have v: "v = a @ w"
    by (simp add: a_def w_def)
  have w: "w = strip v @ b"
    unfolding sv b_def rev_append [symmetric] by simp
  have a: "\<forall>c\<in>set a. isspace c"
    unfolding a_def by (auto dest: set_takeWhileD)
  have b: "\<forall>c\<in>set b. isspace c"
    unfolding b_def by (auto dest: set_takeWhileD)
  have e: "\<not> isspace (hd (strip v)) \<and> \<not> isspace (last (strip v))" if ne: "strip v \<noteq> []"
  proof -
    from ne have d: "dropWhile isspace (rev w) \<noteq> []"
      by (simp add: sv)
    then have "\<not> isspace (hd (dropWhile isspace (rev w)))"
      by (rule hd_dropWhile)
    then have l: "\<not> isspace (last (strip v))"
      using d by (simp add: sv last_rev)
    from ne w have "w \<noteq> []" by auto
    then have "\<not> isspace (hd w)"
      unfolding w_def by (rule hd_dropWhile)
    moreover have "hd w = hd (strip v)"
      using ne by (subst w) simp
    ultimately show ?thesis using l by simp
  qed
  have "v = a @ strip v @ b"
    using v w by simp
  with a b e show ?thesis by blast
qed

lemma sanitize_string_nonneg:
  "0 \<le> max_length \<Longrightarrow>
     sanitize_string v max_length =
       take (nat max_length) (filter (\<lambda>c. \<not> is_control c) (strip v))"
  by (simp add: sanitize_string_def Let_def re_sub_control_def py_slice_prefix strip_Nil)

lemma length_sanitize_string:
  "0 \<le> max_length \<Longrightarrow> length (sanitize_string v max_length) \<le> nat max_length"
  by (simp add: sanitize_string_nonneg)

text \<open>
  C8, amended. For every string and every max\_length that is not negative,
  \<open>sanitize_string\<close> trims the whitespace at both ends, then deletes the control
  characters 0x00-0x1F and 0x7F-0x9F, then keeps the first max\_length characters of
  what is left. It returns a string in every case, of at most max\_length characters and
  free of control characters, and the empty string for the empty string.
\<close>

theorem sanitize_string_spec:
  "0 \<le> max_length \<Longrightarrow>
     sanitize_string v max_length =
       take (nat max_length) (filter (\<lambda>c. \<not> is_control c) (strip v)) \<and>
     int (length (sanitize_string v max_length)) \<le> max_length \<and>
     (\<forall>c\<in>set (sanitize_string v max_length). \<not> is_control c) \<and>
     sanitize_string [] max_length = []"
proof -
  assume n: "0 \<le> max_length"
  let ?r = "take (nat max_length) (filter (\<lambda>c. \<not> is_control c) (strip v))"
  have eq: "sanitize_string v max_length = ?r"
    using n by (rule sanitize_string_nonneg)
  have len: "int (length ?r) \<le> max_length"
    using n by simp
  have ctl: "\<forall>c\<in>set ?r. \<not> is_control c"
    by (auto dest: in_set_takeD)
  have emp: "sanitize_string [] max_length = []"
    by (simp add: sanitize_string_def)
  show ?thesis
    unfolding eq using len ctl emp by blast
qed

text \<open>The example of the specification: \<open>sanitize(" \x01hello\x01 ", 200)\<close> is \<open>"hello"\<close>.\<close>

theorem sanitize_string_spec_witness:
  "sanitize_string ([0x20, 0x01] @ str ''hello'' @ [0x01, 0x20]) 200 = str ''hello'' \<and>
   sanitize_string [] 200 = [] \<and>
   sanitize_string (str ''hello'') 3 = str ''hel''"
proof -
  have h: "(0::int) \<le> 200" "(0::int) \<le> 3" by simp_all
  have s1: "strip ([0x20, 0x01] @ str ''hello'' @ [0x01, 0x20]) = [0x01] @ str ''hello'' @ [0x01]"
    by (simp add: string_defs)
  have s2: "strip (str ''hello'') = str ''hello''"
    by (simp add: string_defs)
  show ?thesis
    using sanitize_string_spec [OF h(1), of "[0x20, 0x01] @ str ''hello'' @ [0x01, 0x20]"]
      sanitize_string_spec [OF h(2), of "str ''hello''"]
    unfolding s1 s2 by (simp add: str_def is_control_def)
qed

text \<open>
  With a negative max\_length the slice \<open>sanitized[:max_length]\<close> counts from the end:
  \<open>sanitize_string("hello", -2)\<close> is \<open>"hel"\<close>, which is longer than max\_length.
\<close>

theorem sanitize_string_negative_counterexample:
  "sanitize_string (str ''hello'') (- 2) = str ''hel'' \<and>
   \<not> int (length (sanitize_string (str ''hello'') (- 2))) \<le> - 2"
  by (simp add: sanitize_string_def string_defs)

lemma startswith_iff: "startswith v p \<longleftrightarrow> (\<exists>b. v = p @ b)"
proof
  assume "startswith v p"
  then have "v = p @ drop (length p) v"
    unfolding startswith_def by (metis append_take_drop_id)
  then show "\<exists>b. v = p @ b" ..
next
  assume "\<exists>b. v = p @ b"
  then show "startswith v p"
    by (auto simp: startswith_def)
qed

lemma contains_iff: "contains p v \<longleftrightarrow> (\<exists>a b. v = a @ p @ b)"
proof (induction v)
  case Nil
  show ?case by auto
next
  case (Cons c cs)
  show ?case
  proof
    assume "contains p (c # cs)"
    then consider "startswith (c # cs) p" | "contains p cs" by auto
    then show "\<exists>a b. c # cs = a @ p @ b"
    proof cases
      case 1
      then obtain b where "c # cs = p @ b"
        unfolding startswith_iff ..
      then have "c # cs = [] @ p @ b" by simp
      then show ?thesis by blast
    next
      case 2
      then obtain a b where "cs = a @ p @ b"
        using Cons.IH by blast
      then have "c # cs = (c # a) @ p @ b" by simp
      then show ?thesis by blast
    qed
  next
    assume "\<exists>a b. c # cs = a @ p @ b"
    then obtain a b where ab: "c # cs = a @ p @ b" by blast
    show "contains p (c # cs)"
    proof (cases a)
      case Nil
      with ab have "startswith (c # cs) p"
        unfolding startswith_iff by auto
      then show ?thesis by simp
    next
      case (Cons x a')
      with ab have "cs = a' @ p @ b" by simp
      then have "contains p cs"
        using Cons.IH by blast
      then show ?thesis by simp
    qed
  qed
qed

lemma re_match_slug_no_newline:
  assumes "v = [] \<or> last v \<noteq> 0x0A"
  shows "re_match_slug v \<longleftrightarrow> v \<noteq> [] \<and> (\<forall>c\<in>set v. slug_char c)"
proof -
  have n: "dropWhile slug_char v \<noteq> [0x0A]"
  proof
    assume d: "dropWhile slug_char v = [0x0A]"
    have "v = takeWhile slug_char v @ dropWhile slug_char v"
      by simp
    then have "v = takeWhile slug_char v @ [0x0A]"
      unfolding d .
    then have "v \<noteq> [] \<and> last v = 0x0A"
      by (metis last_snoc snoc_eq_iff_butlast)
    with assms show False by simp
  qed
  have "takeWhile slug_char v \<noteq> [] \<and> dropWhile slug_char v = [] \<longleftrightarrow>
      v \<noteq> [] \<and> (\<forall>c\<in>set v. slug_char c)"
    by (cases v) (auto simp: dropWhile_eq_Nil_conv)
  with n show ?thesis
    by (simp add: re_match_slug_def dollar_def)
qed

text \<open>
  On every string that does not end with a newline, \<open>validate_slug\<close> accepts exactly
  the non-empty strings over \<open>[a-z0-9-]\<close> that neither start nor end with a hyphen
  and have no two hyphens in a row; and what it accepts it returns unchanged.
\<close>

lemma validate_slug_no_newline:
  assumes "v = [] \<or> last v \<noteq> 0x0A"
  shows "(\<exists>v'. validate_slug v = Inr v') \<longleftrightarrow>
    v \<noteq> [] \<and> (\<forall>c\<in>set v. slug_char c) \<and> hd v \<noteq> 0x2D \<and> last v \<noteq> 0x2D \<and>
    \<not> (\<exists>a b. v = a @ str ''--'' @ b)"
proof (cases "v = []")
  case True
  then show ?thesis by (simp add: validate_slug_def)
next
  case False
  have s: "startswith v (str ''-'') \<longleftrightarrow> hd v = 0x2D"
    using False by (cases v) (simp_all add: startswith_def str_def)
  have "butlast v @ [last v] = v"
    using False by simp
  then have "drop (length (butlast v)) v = [last v]"
    by (metis append_eq_conv_conj)
  then have "drop (length v - 1) v = [last v]"
    by simp
  then have e: "endswith v (str ''-'') \<longleftrightarrow> last v = 0x2D"
    using False by (cases v) (simp_all add: endswith_def str_def)
  show ?thesis
    using False re_match_slug_no_newline [OF assms] s e
    by (simp add: validate_slug_def contains_iff)
qed

text \<open>
  C7. \<open>validate_slug\<close> is to fail on every string that has a character outside
  \<open>[a-z0-9-]\<close>. The string \<open>"a\n"\<close> has one, the newline, and \<open>validate_slug\<close> returns it:
  the \<open>$\<close> of the pattern matches before a final newline. On strings that do not
  end with a newline the function does what the claim says (\<open>validate_slug_no_newline\<close>).
\<close>

theorem validate_slug_trailing_newline:
  "validate_slug (str ''a'' @ [0x0A]) = Inr (str ''a'' @ [0x0A]) \<and> \<not> slug_char 0x0A"
  by (simp add: validate_slug_def string_defs)

section \<open>The models\<close>

lemma validate_slug_Inr: "validate_slug v = Inr v' \<Longrightarrow> v' = v"
  by (simp add: validate_slug_def split: if_splits)

lemma slug_field_Inr: "slug_field v = Inr v' \<Longrightarrow> v' = v"
  by (auto simp: slug_field_def split: if_splits sum.splits dest: validate_slug_Inr)

lemma ItemBase_validate_Inr:
  "ItemBase_validate n s d = Inr b \<longleftrightarrow>
     (\<exists>n' d'. name_field n = Inr n' \<and> slug_field s = Inr s \<and> description_field d = Inr d' \<and>
        b = \<lparr>name = n', slug = s, description = d'\<rparr>)"
  by (auto simp: ItemBase_validate_def split: sum.splits dest: slug_field_Inr)

lemma ItemBase_validate_Inl:
  "ItemBase_validate n s d = Inl e \<longleftrightarrow>
     e = ValidationError (field_errors ''name'' (name_field n) @ field_errors ''slug'' (slug_field s) @
           field_errors ''description'' (description_field d)) \<and>
     \<not> (\<exists>n' s' d'. name_field n = Inr n' \<and> slug_field s = Inr s' \<and> description_field d = Inr d')"
  by (auto simp: ItemBase_validate_def split: sum.splits)

lemma Item_new_Inr:
  "Item_new i n s d c u = Inr item \<longleftrightarrow>
     (\<exists>n' d'. name_field n = Inr n' \<and> slug_field s = Inr s \<and> description_field d = Inr d' \<and>
        item = \<lparr>name = n', slug = s, description = d', item_id = i, created_at = c, updated_at = u\<rparr>)"
proof
  assume "Item_new i n s d c u = Inr item"
  then obtain b where b: "ItemBase_validate n s d = Inr b"
    and item: "item = \<lparr>name = name b, slug = slug b, description = description b,
               item_id = i, created_at = c, updated_at = u\<rparr>"
    by (auto simp: Item_new_def split: sum.splits)
  from b obtain n' d' where "name_field n = Inr n'" "slug_field s = Inr s"
    "description_field d = Inr d'" "b = \<lparr>name = n', slug = s, description = d'\<rparr>"
    unfolding ItemBase_validate_Inr by blast
  with item show "\<exists>n' d'. name_field n = Inr n' \<and> slug_field s = Inr s \<and>
      description_field d = Inr d' \<and>
      item = \<lparr>name = n', slug = s, description = d', item_id = i, created_at = c, updated_at = u\<rparr>"
    by simp
next
  assume "\<exists>n' d'. name_field n = Inr n' \<and> slug_field s = Inr s \<and>
      description_field d = Inr d' \<and>
      item = \<lparr>name = n', slug = s, description = d', item_id = i, created_at = c, updated_at = u\<rparr>"
  then obtain n' d' where f: "name_field n = Inr n'" "slug_field s = Inr s"
    "description_field d = Inr d'"
    and item: "item = \<lparr>name = n', slug = s, description = d', item_id = i, created_at = c,
      updated_at = u\<rparr>"
    by blast
  from f have "ItemBase_validate n s d = Inr \<lparr>name = n', slug = s, description = d'\<rparr>"
    unfolding ItemBase_validate_Inr by blast
  with item show "Item_new i n s d c u = Inr item"
    by (simp add: Item_new_def)
qed

lemma Item_new_fields:
  assumes "Item_new i n s d c u = Inr item"
  shows "item_id item = i" "slug item = s" "created_at item = c" "updated_at item = u"
    "slug_field s = Inr s" "name_field n = Inr (name item)"
    "description_field d = Inr (description item)"
  using assms by (auto simp: Item_new_Inr)

lemma create_item_duplicate:
  "map_of (slug_index s) (slug data) \<noteq> None \<Longrightarrow>
     create_item s data now = (Inl (DuplicateSlug (slug data)), s)"
  by (simp add: create_item_def)

lemma create_item_invalid:
  "map_of (slug_index s) (slug data) = None \<Longrightarrow>
   Item_new (next_id s) (name data) (slug data) (description data) now now = Inl e \<Longrightarrow>
     create_item s data now = (Inl e, s)"
  by (simp add: create_item_def)

lemma create_item_stored:
  "map_of (slug_index s) (slug data) = None \<Longrightarrow>
   Item_new (next_id s) (name data) (slug data) (description data) now now = Inr item \<Longrightarrow>
     create_item s data now =
       (Inr item, s\<lparr>items := AList.update (next_id s) item (items s),
                    slug_index := AList.update (slug data) (next_id s) (slug_index s),
                    next_id := next_id s + 1\<rparr>)"
  by (simp add: create_item_def Item_new_fields)

lemma create_item_cases:
  obtains (duplicate) "map_of (slug_index s) (slug data) \<noteq> None"
      "create_item s data now = (Inl (DuplicateSlug (slug data)), s)"
  | (invalid) e where "map_of (slug_index s) (slug data) = None"
      "Item_new (next_id s) (name data) (slug data) (description data) now now = Inl e"
      "create_item s data now = (Inl e, s)"
  | (stored) item where "map_of (slug_index s) (slug data) = None"
      "Item_new (next_id s) (name data) (slug data) (description data) now now = Inr item"
      "create_item s data now =
       (Inr item, s\<lparr>items := AList.update (next_id s) item (items s),
                    slug_index := AList.update (slug data) (next_id s) (slug_index s),
                    next_id := next_id s + 1\<rparr>)"
proof (cases "map_of (slug_index s) (slug data) = None")
  case False
  then show ?thesis using duplicate create_item_duplicate by blast
next
  case True
  show ?thesis
  proof (cases "Item_new (next_id s) (name data) (slug data) (description data) now now")
    case (Inl e)
    with True show ?thesis using invalid create_item_invalid by blast
  next
    case (Inr item)
    with True show ?thesis using stored create_item_stored by blast
  qed
qed

section \<open>The operations of the service\<close>

lemma update_item_absent:
  "map_of (items s) i = None \<Longrightarrow> update_item s i upd now = (None, s)"
  by (simp add: update_item_def)

lemma update_item_present:
  "map_of (items s) i = Some item \<Longrightarrow>
     update_item s i upd now =
       (Some (updated item upd now), s\<lparr>items := AList.update i (updated item upd now) (items s)\<rparr>)"
  by (simp add: update_item_def model_dump_exclude_unset_def updated_def Let_def)

lemma updated_fields:
  "slug (updated item upd now) = slug item"
  "item_id (updated item upd now) = item_id item"
  "created_at (updated item upd now) = created_at item"
  "updated_at (updated item upd now) = now"
  by (simp_all add: updated_def)

lemma delete_item_absent:
  "map_of (items s) i = None \<Longrightarrow> delete_item s i = (Inr False, s)"
  by (simp add: delete_item_def)

lemma delete_item_present:
  "map_of (items s) i = Some item \<Longrightarrow> map_of (slug_index s) (slug item) \<noteq> None \<Longrightarrow>
     delete_item s i =
       (Inr True, s\<lparr>items := AList.delete i (items s),
                    slug_index := AList.delete (slug item) (slug_index s)\<rparr>)"
  by (simp add: delete_item_def Let_def)

lemma store_invD:
  assumes "store_inv s"
  shows "\<And>i item. map_of (items s) i = Some item \<Longrightarrow> map_of (slug_index s) (slug item) = Some i"
    and "\<And>sl i. map_of (slug_index s) sl = Some i \<Longrightarrow>
           \<exists>item. map_of (items s) i = Some item \<and> slug item = sl"
    and "\<And>i item. map_of (items s) i = Some item \<Longrightarrow>
           item_id item = i \<and> 1 \<le> i \<and> i < next_id s \<and> slug_field (slug item) = Inr (slug item)"
    and "1 \<le> next_id s"
  using assms unfolding store_inv_def indexes_consistent_def by blast+

lemma store_inv_distinct:
  assumes "store_inv s"
  shows "distinct (map fst (items s))" "distinct (map fst (slug_index s))"
  using assms unfolding store_inv_def by blast+

lemma store_invI:
  assumes "\<And>i item. map_of (items s) i = Some item \<Longrightarrow> map_of (slug_index s) (slug item) = Some i"
    and "\<And>sl i. map_of (slug_index s) sl = Some i \<Longrightarrow>
           \<exists>item. map_of (items s) i = Some item \<and> slug item = sl"
    and "\<And>i item. map_of (items s) i = Some item \<Longrightarrow>
           item_id item = i \<and> 1 \<le> i \<and> i < next_id s \<and> slug_field (slug item) = Inr (slug item)"
    and "1 \<le> next_id s"
    and "distinct (map fst (items s))" "distinct (map fst (slug_index s))"
  shows "store_inv s"
  using assms unfolding store_inv_def indexes_consistent_def by blast

lemma store_inv_init: "store_inv init"
  by (simp add: store_inv_def indexes_consistent_def init_def)

lemma store_inv_create:
  assumes inv: "store_inv s"
  shows "store_inv (snd (create_item s data now))"
proof (cases rule: create_item_cases [of s data now])
  case duplicate
  with inv show ?thesis by simp
next
  case (invalid e)
  with inv show ?thesis by simp
next
  case (stored item)
  note f = Item_new_fields [OF stored(2)]
  note D = store_invD [OF inv]
  have fresh: "map_of (items s) (next_id s) = None"
    using D(3) by (cases "map_of (items s) (next_id s)") auto
  have free: "slug it \<noteq> slug data" if "map_of (items s) i = Some it" for i it
    using D(1) [OF that] stored(1) by auto
  let ?s' = "s\<lparr>items := AList.update (next_id s) item (items s),
                slug_index := AList.update (slug data) (next_id s) (slug_index s),
                next_id := next_id s + 1\<rparr>"
  have "store_inv ?s'"
  proof (rule store_invI)
    fix i it assume "map_of (items ?s') i = Some it"
    then show "map_of (slug_index ?s') (slug it) = Some i"
      using D(1) free f(2) by (auto simp: update_conv' split: if_splits)
  next
    fix sl i assume "map_of (slug_index ?s') sl = Some i"
    then show "\<exists>it. map_of (items ?s') i = Some it \<and> slug it = sl"
      using D(2) [of sl i] fresh f(2) by (fastforce simp: update_conv' split: if_splits)
  next
    fix i it assume "map_of (items ?s') i = Some it"
    then show "item_id it = i \<and> 1 \<le> i \<and> i < next_id ?s' \<and> slug_field (slug it) = Inr (slug it)"
      using D(3) D(4) f(1) f(2) f(5) by (fastforce simp: update_conv' split: if_splits)
  next
    show "1 \<le> next_id ?s'" using D(4) by simp
  next
    show "distinct (map fst (items ?s'))" "distinct (map fst (slug_index ?s'))"
      using store_inv_distinct [OF inv] by (simp_all add: distinct_update)
  qed
  with stored(3) show ?thesis by simp
qed

lemma store_inv_update:
  assumes inv: "store_inv s"
  shows "store_inv (snd (update_item s i upd now))"
proof (cases "map_of (items s) i")
  case None
  with inv show ?thesis by (simp add: update_item_absent)
next
  case (Some item)
  note D = store_invD [OF inv]
  let ?s' = "s\<lparr>items := AList.update i (updated item upd now) (items s)\<rparr>"
  have "store_inv ?s'"
  proof (rule store_invI)
    fix j it assume "map_of (items ?s') j = Some it"
    then show "map_of (slug_index ?s') (slug it) = Some j"
      using D(1) Some by (auto simp: update_conv' updated_fields split: if_splits)
  next
    fix sl j assume "map_of (slug_index ?s') sl = Some j"
    then show "\<exists>it. map_of (items ?s') j = Some it \<and> slug it = sl"
      using D(2) [of sl j] Some by (auto simp: update_conv' updated_fields)
  next
    fix j it assume "map_of (items ?s') j = Some it"
    then show "item_id it = j \<and> 1 \<le> j \<and> j < next_id ?s' \<and> slug_field (slug it) = Inr (slug it)"
      using D(3) Some by (auto simp: update_conv' updated_fields split: if_splits)
  next
    show "1 \<le> next_id ?s'" using D(4) by simp
  next
    show "distinct (map fst (items ?s'))" "distinct (map fst (slug_index ?s'))"
      using store_inv_distinct [OF inv] by (simp_all add: distinct_update)
  qed
  with Some show ?thesis by (simp add: update_item_present)
qed

lemma store_inv_delete:
  assumes inv: "store_inv s"
  shows "store_inv (snd (delete_item s i))"
proof (cases "map_of (items s) i")
  case None
  with inv show ?thesis by (simp add: delete_item_absent)
next
  case (Some item)
  note D = store_invD [OF inv]
  have idx: "map_of (slug_index s) (slug item) = Some i"
    using D(1) Some by blast
  let ?s' = "s\<lparr>items := AList.delete i (items s),
                slug_index := AList.delete (slug item) (slug_index s)\<rparr>"
  have "store_inv ?s'"
  proof (rule store_invI)
    fix j it assume a: "map_of (items ?s') j = Some it"
    then have "j \<noteq> i" "map_of (items s) j = Some it"
      by (auto simp: delete_conv' split: if_splits)
    with D(1) [of j it] idx show "map_of (slug_index ?s') (slug it) = Some j"
      by (auto simp: delete_conv')
  next
    fix sl j assume a: "map_of (slug_index ?s') sl = Some j"
    then have b: "sl \<noteq> slug item" "map_of (slug_index s) sl = Some j"
      by (auto simp: delete_conv' split: if_splits)
    from D(2) [OF b(2)] obtain it where it: "map_of (items s) j = Some it" "slug it = sl"
      by blast
    with b(1) Some have "j \<noteq> i" by auto
    with it show "\<exists>it. map_of (items ?s') j = Some it \<and> slug it = sl"
      by (auto simp: delete_conv')
  next
    fix j it assume "map_of (items ?s') j = Some it"
    then have "map_of (items s) j = Some it"
      by (auto simp: delete_conv' split: if_splits)
    from D(3) [OF this]
    show "item_id it = j \<and> 1 \<le> j \<and> j < next_id ?s' \<and> slug_field (slug it) = Inr (slug it)"
      by simp
  next
    show "1 \<le> next_id ?s'" using D(4) by simp
  next
    show "distinct (map fst (items ?s'))" "distinct (map fst (slug_index ?s'))"
      using store_inv_distinct [OF inv] by (simp_all add: distinct_delete)
  qed
  with Some idx show ?thesis by (simp add: delete_item_present)
qed

lemma reachable_store_inv: "reachable s \<Longrightarrow> store_inv s"
  by (induction rule: reachable.induct)
    (simp_all add: store_inv_init store_inv_create store_inv_update store_inv_delete)

section \<open>The claims about the service\<close>

lemmas model_defs = create_item_def Item_new_def ItemBase_validate_def ItemCreate_new_def
  name_field_def slug_field_def description_field_def field_errors_def validate_slug_def
  sanitize_string_def init_def get_item_def get_item_by_slug_def update_item_def
  delete_item_def ItemUpdate_new_def given_def name_upd_field_def model_dump_exclude_unset_def
  list_items_def Let_def

lemma store_inv_consistent: "store_inv s \<Longrightarrow> indexes_consistent s"
  by (simp add: store_inv_def)

lemma store_inv_slugs_unique:
  assumes "store_inv s"
  shows "slugs_unique s"
  unfolding slugs_unique_def
proof (intro allI impI)
  fix i j a b
  assume h: "map_of (items s) i = Some a \<and> map_of (items s) j = Some b \<and> slug a = slug b"
  then have "map_of (slug_index s) (slug a) = Some i"
    using store_invD(1) [OF assms, of i a] by simp
  moreover from h have "map_of (slug_index s) (slug a) = Some j"
    using store_invD(1) [OF assms, of j b] by simp
  ultimately show "i = j" by simp
qed

text \<open>
  C1. In every reachable state of the service the two indexes agree, in both directions,
  and no two stored items share a slug; and so it is after \<open>create_item\<close>,
  \<open>update_item\<close> and \<open>delete_item\<close>, whatever their arguments.
\<close>

theorem indexes_consistent_reachable:
  assumes "reachable s"
  shows "indexes_consistent s \<and> slugs_unique s \<and>
    indexes_consistent (snd (create_item s data now)) \<and>
    slugs_unique (snd (create_item s data now)) \<and>
    indexes_consistent (snd (update_item s i upd now)) \<and>
    slugs_unique (snd (update_item s i upd now)) \<and>
    indexes_consistent (snd (delete_item s i)) \<and>
    slugs_unique (snd (delete_item s i))"
proof -
  have "store_inv s"
    using assms by (rule reachable_store_inv)
  then have "store_inv s" "store_inv (snd (create_item s data now))"
    "store_inv (snd (update_item s i upd now))" "store_inv (snd (delete_item s i))"
    by (simp_all add: store_inv_create store_inv_update store_inv_delete)
  then show ?thesis
    by (simp add: store_inv_consistent store_inv_slugs_unique)
qed

theorem indexes_consistent_reachable_witness:
  "reachable (snd (create_item init \<lparr>name = Some (str ''a''), slug = str ''a'', description = None\<rparr> 0)) \<and>
   get_item (snd (create_item init \<lparr>name = Some (str ''a''), slug = str ''a'', description = None\<rparr> 0)) 1 \<noteq> None \<and>
   indexes_consistent (snd (create_item init \<lparr>name = Some (str ''a''), slug = str ''a'', description = None\<rparr> 0)) \<and>
   slugs_unique (snd (create_item init \<lparr>name = Some (str ''a''), slug = str ''a'', description = None\<rparr> 0)) \<and>
   indexes_consistent (snd (delete_item (snd (create_item init \<lparr>name = Some (str ''a''), slug = str ''a'', description = None\<rparr> 0)) 1))"
proof -
  let ?s = "snd (create_item init \<lparr>name = Some (str ''a''), slug = str ''a'', description = None\<rparr> 0)"
  have r: "reachable ?s"
    by (rule r_create [OF r_init])
  have g: "get_item ?s 1 \<noteq> None"
    by (simp add: model_defs string_defs)
  from r g indexes_consistent_reachable [OF r, of _ _ 1] show ?thesis
    by blast
qed

lemma create_item_id:
  "create_item s data now = (Inr item, s') \<Longrightarrow> item_id item = next_id s"
  by (cases rule: create_item_cases [of s data now]) (auto simp: Item_new_fields)

text \<open>
  C2. In every state, \<open>create_item\<close> with a slug that is a key of the slug index fails
  with the duplicate-slug error and leaves the state as it was: the items, both indexes
  and the counter. A create that follows behaves as if the failed one had not happened,
  and when it succeeds its item gets the id the counter had before.
\<close>

theorem create_item_duplicate_slug:
  assumes "map_of (slug_index s) (slug data) \<noteq> None"
  shows "create_item s data now = (Inl (DuplicateSlug (slug data)), s) \<and>
    length (items (snd (create_item s data now))) = length (items s) \<and>
    items (snd (create_item s data now)) = items s \<and>
    slug_index (snd (create_item s data now)) = slug_index s \<and>
    next_id (snd (create_item s data now)) = next_id s \<and>
    create_item (snd (create_item s data now)) data' now' = create_item s data' now' \<and>
    (\<forall>item s'. create_item (snd (create_item s data now)) data' now' = (Inr item, s')
       \<longrightarrow> item_id item = next_id s)"
proof -
  have d: "create_item s data now = (Inl (DuplicateSlug (slug data)), s)"
    using assms by (rule create_item_duplicate)
  then have s: "snd (create_item s data now) = s"
    by simp
  show ?thesis
    unfolding s using d create_item_id by blast
qed

theorem create_item_duplicate_slug_witness:
  "fst (create_item init \<lparr>name = Some (str ''A''), slug = str ''a'', description = Some (str ''x'')\<rparr> 0) =
     Inr \<lparr>name = Some (str ''A''), slug = str ''a'', description = Some (str ''x''),
          item_id = 1, created_at = 0, updated_at = 0\<rparr> \<and>
   create_item
     (snd (create_item init \<lparr>name = Some (str ''A''), slug = str ''a'', description = Some (str ''x'')\<rparr> 0))
     \<lparr>name = Some (str ''B''), slug = str ''a'', description = None\<rparr> 1 =
     (Inl (DuplicateSlug (str ''a'')),
      snd (create_item init \<lparr>name = Some (str ''A''), slug = str ''a'', description = Some (str ''x'')\<rparr> 0)) \<and>
   fst (create_item
     (snd (create_item
       (snd (create_item init \<lparr>name = Some (str ''A''), slug = str ''a'', description = Some (str ''x'')\<rparr> 0))
       \<lparr>name = Some (str ''B''), slug = str ''a'', description = None\<rparr> 1))
     \<lparr>name = Some (str ''B''), slug = str ''b'', description = None\<rparr> 2) =
     Inr \<lparr>name = Some (str ''B''), slug = str ''b'', description = None,
          item_id = 2, created_at = 2, updated_at = 2\<rparr>"
proof -
  let ?a = "\<lparr>name = Some (str ''A''), slug = str ''a'', description = Some (str ''x'')\<rparr>"
  let ?b = "\<lparr>name = Some (str ''B''), slug = str ''a'', description = None\<rparr>"
  let ?c = "\<lparr>name = Some (str ''B''), slug = str ''b'', description = None\<rparr>"
  have c1: "create_item init ?a 0 =
    (Inr \<lparr>name = Some (str ''A''), slug = str ''a'', description = Some (str ''x''),
          item_id = 1, created_at = 0, updated_at = 0\<rparr>,
     \<lparr>items = [(1, \<lparr>name = Some (str ''A''), slug = str ''a'', description = Some (str ''x''),
          item_id = 1, created_at = 0, updated_at = 0\<rparr>)], next_id = 2,
      slug_index = [(str ''a'', 1)]\<rparr>)"
    by (simp add: model_defs string_defs)
  have h: "map_of (slug_index (snd (create_item init ?a 0))) (slug ?b) \<noteq> None"
    unfolding c1 by simp
  have c3: "fst (create_item (snd (create_item init ?a 0)) ?c 2) =
     Inr \<lparr>name = Some (str ''B''), slug = str ''b'', description = None,
          item_id = 2, created_at = 2, updated_at = 2\<rparr>"
    unfolding c1 by (simp add: model_defs string_defs)
  from create_item_duplicate_slug [OF h, of 1 ?c 2] c1 c3 show ?thesis
    by simp
qed

text \<open>
  C4. For every stored id and every payload, \<open>update_item\<close> returns the updated item and
  stores it under the same id: the fields of the payload that were set are overwritten,
  the others keep their values, \<open>slug\<close>, \<open>created_at\<close> and \<open>id\<close> are unchanged, and
  \<open>updated_at\<close> is the current time, also when no field was set. The other items, the
  slug index and the counter are unchanged.
\<close>

theorem update_item_spec:
  assumes "get_item s i = Some item"
  shows "\<exists>item' s'. update_item s i upd now = (Some item', s') \<and>
    get_item s' i = Some item' \<and>
    name item' = (if Name \<in> model_fields_set upd then name_upd upd else name item) \<and>
    description item' =
      (if Description \<in> model_fields_set upd then description_upd upd else description item) \<and>
    slug item' = slug item \<and>
    created_at item' = created_at item \<and>
    item_id item' = item_id item \<and>
    updated_at item' = now \<and>
    (\<forall>j. j \<noteq> i \<longrightarrow> get_item s' j = get_item s j) \<and>
    slug_index s' = slug_index s \<and> next_id s' = next_id s"
proof -
  let ?item' = "updated item upd now"
  let ?s' = "s\<lparr>items := AList.update i ?item' (items s)\<rparr>"
  have m: "map_of (items s) i = Some item"
    using assms by (simp add: get_item_def)
  have u: "update_item s i upd now = (Some ?item', ?s')"
    using m by (rule update_item_present)
  have g: "get_item ?s' i = Some ?item'"
    by (simp add: get_item_def update_conv')
  have o: "\<forall>j. j \<noteq> i \<longrightarrow> get_item ?s' j = get_item s j"
    by (simp add: get_item_def update_conv')
  have f: "name ?item' = (if Name \<in> model_fields_set upd then name_upd upd else name item)"
    "description ?item' =
      (if Description \<in> model_fields_set upd then description_upd upd else description item)"
    by (simp_all add: updated_def)
  have r: "slug_index ?s' = slug_index s" "next_id ?s' = next_id s"
    by simp_all
  from u g o f r updated_fields [of item upd now] show ?thesis
    by blast
qed

theorem update_item_spec_witness:
  "update_item
     \<lparr>items = [(1, \<lparr>name = Some (str ''A''), slug = str ''a'', description = Some (str ''x''),
                     item_id = 1, created_at = 0, updated_at = 0\<rparr>)],
      next_id = 2, slug_index = [(str ''a'', 1)]\<rparr>
     1 \<lparr>name_upd = None, description_upd = None, model_fields_set = {}\<rparr> 7 =
   (Some \<lparr>name = Some (str ''A''), slug = str ''a'', description = Some (str ''x''),
           item_id = 1, created_at = 0, updated_at = 7\<rparr>,
    \<lparr>items = [(1, \<lparr>name = Some (str ''A''), slug = str ''a'', description = Some (str ''x''),
                     item_id = 1, created_at = 0, updated_at = 7\<rparr>)],
      next_id = 2, slug_index = [(str ''a'', 1)]\<rparr>) \<and>
   fst (update_item
     \<lparr>items = [(1, \<lparr>name = Some (str ''A''), slug = str ''a'', description = Some (str ''x''),
                     item_id = 1, created_at = 0, updated_at = 0\<rparr>)],
      next_id = 2, slug_index = [(str ''a'', 1)]\<rparr>
     1 \<lparr>name_upd = Some (str ''X''), description_upd = None, model_fields_set = {Name}\<rparr> 7) =
   Some \<lparr>name = Some (str ''X''), slug = str ''a'', description = Some (str ''x''),
           item_id = 1, created_at = 0, updated_at = 7\<rparr>"
proof -
  let ?item = "\<lparr>name = Some (str ''A''), slug = str ''a'', description = Some (str ''x''),
                     item_id = 1, created_at = 0, updated_at = 0\<rparr>"
  let ?s = "\<lparr>items = [(1, ?item)], next_id = 2, slug_index = [(str ''a'', 1)]\<rparr>"
  have h: "get_item ?s 1 = Some ?item"
    by (simp add: get_item_def)
  from update_item_spec [OF h, of "\<lparr>name_upd = None, description_upd = None, model_fields_set = {}\<rparr>" 7]
    update_item_spec [OF h, of "\<lparr>name_upd = Some (str ''X''), description_upd = None, model_fields_set = {Name}\<rparr>" 7]
  show ?thesis
    by (simp add: model_defs)
qed

text \<open>
  C9. For every stored item, \<open>update_item\<close> with a payload built with an explicit
  \<open>name=None\<close> succeeds, and the item it returns and stores has the name \<open>None\<close>.
\<close>

theorem update_item_null_name:
  assumes "get_item s i = Some item" and "ItemUpdate_new (Some None) d = Inr upd"
  shows "\<exists>item'. fst (update_item s i upd now) = Some item' \<and> name item' = None \<and>
    get_item (snd (update_item s i upd now)) i = Some item' \<and>
    slug item' = slug item \<and> item_id item' = item_id item"
proof -
  from assms(2) have n: "Name \<in> model_fields_set upd" "name_upd upd = None"
    by (auto simp: ItemUpdate_new_def given_def name_upd_field_def split: sum.splits option.splits)
  have m: "map_of (items s) i = Some item"
    using assms(1) by (simp add: get_item_def)
  have "name (updated item upd now) = None"
    using n by (simp add: updated_def)
  then show ?thesis
    unfolding update_item_present [OF m]
    by (simp add: get_item_def update_conv' updated_fields)
qed

theorem update_item_null_name_witness:
  "ItemUpdate_new (Some None) None =
     Inr \<lparr>name_upd = None, description_upd = None, model_fields_set = {Name}\<rparr> \<and>
   update_item
     \<lparr>items = [(1, \<lparr>name = Some (str ''A''), slug = str ''a'', description = Some (str ''x''),
                     item_id = 1, created_at = 0, updated_at = 0\<rparr>)],
      next_id = 2, slug_index = [(str ''a'', 1)]\<rparr>
     1 \<lparr>name_upd = None, description_upd = None, model_fields_set = {Name}\<rparr> 7 =
   (Some \<lparr>name = None, slug = str ''a'', description = Some (str ''x''),
           item_id = 1, created_at = 0, updated_at = 7\<rparr>,
    \<lparr>items = [(1, \<lparr>name = None, slug = str ''a'', description = Some (str ''x''),
                     item_id = 1, created_at = 0, updated_at = 7\<rparr>)],
      next_id = 2, slug_index = [(str ''a'', 1)]\<rparr>)"
proof -
  let ?item = "\<lparr>name = Some (str ''A''), slug = str ''a'', description = Some (str ''x''),
                     item_id = 1, created_at = 0, updated_at = 0\<rparr>"
  let ?s = "\<lparr>items = [(1, ?item)], next_id = 2, slug_index = [(str ''a'', 1)]\<rparr>"
  let ?u = "\<lparr>name_upd = None, description_upd = None, model_fields_set = {Name}\<rparr>"
  have h: "get_item ?s 1 = Some ?item"
    by (simp add: get_item_def)
  have u: "ItemUpdate_new (Some None) None = Inr ?u"
    by (simp add: ItemUpdate_new_def given_def name_upd_field_def)
  from update_item_null_name [OF h u, of 7] u show ?thesis
    by (simp add: model_defs)
qed

lemma sanitize_control_char: "is_control c \<Longrightarrow> sanitize_string [c] 200 = []"
  by (simp add: sanitize_string_nonneg strip_def)

lemma description_field_again:
  assumes "description_field d = Inr d'"
  shows "description_field d' = Inr (map_option (\<lambda>v. sanitize_string v 1000) d')"
proof (cases d)
  case None
  with assms show ?thesis by (auto simp: description_field_def)
next
  case (Some v)
  with assms have d': "d' = Some (sanitize_string v 1000)"
    by (auto simp: description_field_def split: if_splits)
  have "length (sanitize_string v 1000) \<le> nat 1000"
    by (rule length_sanitize_string) simp
  with d' show ?thesis
    by (simp add: description_field_def)
qed

lemma ItemCreate_new_fields:
  assumes "ItemCreate_new n sl d = Inr data"
  shows "name_field n = Inr (name data)" "slug_field sl = Inr sl" "slug data = sl"
    "description_field d = Inr (description data)"
  using assms by (auto simp: ItemCreate_new_def ItemBase_validate_Inr)

text \<open>
  C10. A name that is one control character passes the validation of \<open>ItemCreate\<close>,
  which checks the minimum length before it sanitizes, and becomes the empty string.
  With such a payload and a slug that is not indexed, \<open>create_item\<close> fails with a
  validation error for the field \<open>name\<close> alone (not the duplicate-slug error, and no
  entry for the slug), raised when the \<open>Item\<close> is constructed; the state is unchanged,
  so nothing is stored and the counter keeps its value.
\<close>

theorem create_item_blank_name:
  assumes "is_control c" and "ItemCreate_new (Some [c]) sl d = Inr data"
    and "map_of (slug_index s) (slug data) = None"
  shows "name data = Some [] \<and>
    create_item s data now = (Inl (ValidationError [(''name'', StringTooShort)]), s)"
proof -
  note f = ItemCreate_new_fields [OF assms(2)]
  from f(1) have n: "name data = Some []"
    using assms(1) by (simp add: name_field_def sanitize_control_char)
  have nf: "name_field (name data) = Inl StringTooShort"
    unfolding n by (simp add: name_field_def)
  have sf: "slug_field (slug data) = Inr (slug data)"
    using f(2) f(3) by simp
  note df = description_field_again [OF f(4)]
  have "ItemBase_validate (name data) (slug data) (description data) =
      Inl (ValidationError [(''name'', StringTooShort)])"
    unfolding ItemBase_validate_Inl nf sf df by (simp add: field_errors_def)
  then have "Item_new (next_id s) (name data) (slug data) (description data) now now =
      Inl (ValidationError [(''name'', StringTooShort)])"
    by (simp add: Item_new_def)
  with assms(3) n show ?thesis
    by (simp add: create_item_invalid)
qed

theorem create_item_blank_name_witness:
  "ItemCreate_new (Some [0x01]) (str ''a'') None =
     Inr \<lparr>name = Some [], slug = str ''a'', description = None\<rparr> \<and>
   create_item init \<lparr>name = Some [], slug = str ''a'', description = None\<rparr> 0 =
     (Inl (ValidationError [(''name'', StringTooShort)]), init) \<and>
   items init = [] \<and> next_id init = 1"
proof -
  have c: "is_control 0x01"
    by (simp add: is_control_def)
  have d: "ItemCreate_new (Some [0x01]) (str ''a'') None =
     Inr \<lparr>name = Some [], slug = str ''a'', description = None\<rparr>"
    by (simp add: model_defs string_defs)
  have i: "map_of (slug_index init) (slug \<lparr>name = Some [], slug = str ''a'', description = None\<rparr>) = None"
    by (simp add: init_def)
  from create_item_blank_name [OF c d i, of 0] d show ?thesis
    by (simp add: init_def)
qed

lemma name_field_again:
  assumes "name_field n = Inr n'" and "n' \<noteq> Some []"
  shows "name_field n' = Inr (map_option (\<lambda>v. sanitize_string v 200) n')"
proof -
  from assms(1) obtain v where n': "n' = Some (sanitize_string v 200)"
    by (auto simp: name_field_def split: option.splits if_splits)
  have "length (sanitize_string v 200) \<le> nat 200"
    by (rule length_sanitize_string) simp
  with n' assms(2) show ?thesis
    by (simp add: name_field_def)
qed

text \<open>
  C5, amended. For every payload that \<open>ItemCreate\<close> accepts, whose slug is not indexed
  and whose name is not empty, \<open>create_item\<close> in a reachable state succeeds and
  \<open>get_item\<close> on the returned id yields the returned item. Its slug is that of the
  payload; its name and description are those of the payload passed through
  \<open>sanitize_string\<close> once more, since constructing the \<open>Item\<close> runs the inherited
  validators again (so they equal the payload's where a second pass changes nothing);
  its id is the value of the counter, which is positive; \<open>created_at\<close> and \<open>updated_at\<close>
  are both the time of the call.
\<close>

theorem create_item_then_get:
  assumes "reachable s" and "ItemCreate_new n sl d = Inr data"
    and "map_of (slug_index s) (slug data) = None" and "name data \<noteq> Some []"
  shows "\<exists>item s'. create_item s data now = (Inr item, s') \<and>
    get_item s' (item_id item) = Some item \<and>
    item_id item = next_id s \<and> 0 < item_id item \<and>
    slug item = slug data \<and>
    name item = map_option (\<lambda>v. sanitize_string v 200) (name data) \<and>
    description item = map_option (\<lambda>v. sanitize_string v 1000) (description data) \<and>
    created_at item = now \<and> updated_at item = now"
proof -
  note f = ItemCreate_new_fields [OF assms(2)]
  let ?item = "\<lparr>name = map_option (\<lambda>v. sanitize_string v 200) (name data), slug = slug data,
    description = map_option (\<lambda>v. sanitize_string v 1000) (description data),
    item_id = next_id s, created_at = now, updated_at = now\<rparr>"
  let ?s' = "s\<lparr>items := AList.update (next_id s) ?item (items s),
                slug_index := AList.update (slug data) (next_id s) (slug_index s),
                next_id := next_id s + 1\<rparr>"
  have "Item_new (next_id s) (name data) (slug data) (description data) now now = Inr ?item"
    unfolding Item_new_Inr
    using name_field_again [OF f(1) assms(4)] description_field_again [OF f(4)] f(2) f(3)
    by simp
  from create_item_stored [OF assms(3) this]
  have c: "create_item s data now = (Inr ?item, ?s')" .
  have g: "get_item ?s' (item_id ?item) = Some ?item"
    by (simp add: get_item_def update_conv')
  have p: "0 < item_id ?item"
    using store_invD(4) [OF reachable_store_inv [OF assms(1)]] by simp
  from c g p show ?thesis
    by (intro exI [of _ ?item] exI [of _ ?s']) simp
qed

theorem create_item_then_get_witness:
  "ItemCreate_new (Some (str '' Sample Item '')) (str ''sample-item'') (Some (str ''A sample'')) =
     Inr \<lparr>name = Some (str ''Sample Item''), slug = str ''sample-item'',
          description = Some (str ''A sample'')\<rparr> \<and>
   fst (create_item init \<lparr>name = Some (str ''Sample Item''), slug = str ''sample-item'',
          description = Some (str ''A sample'')\<rparr> 5) =
     Inr \<lparr>name = Some (str ''Sample Item''), slug = str ''sample-item'',
          description = Some (str ''A sample''), item_id = 1, created_at = 5, updated_at = 5\<rparr> \<and>
   get_item (snd (create_item init \<lparr>name = Some (str ''Sample Item''), slug = str ''sample-item'',
          description = Some (str ''A sample'')\<rparr> 5)) 1 =
     Some \<lparr>name = Some (str ''Sample Item''), slug = str ''sample-item'',
          description = Some (str ''A sample''), item_id = 1, created_at = 5, updated_at = 5\<rparr>"
proof -
  let ?d = "\<lparr>name = Some (str ''Sample Item''), slug = str ''sample-item'',
          description = Some (str ''A sample'')\<rparr>"
  have v: "ItemCreate_new (Some (str '' Sample Item '')) (str ''sample-item'') (Some (str ''A sample'')) = Inr ?d"
    by (simp add: model_defs string_defs)
  have i: "map_of (slug_index init) (slug ?d) = None"
    by (simp add: init_def)
  have n: "name ?d \<noteq> Some []"
    by (simp add: str_def)
  have s1: "sanitize_string (str ''Sample Item'') 200 = str ''Sample Item''"
    by (simp add: sanitize_string_def string_defs)
  have s2: "sanitize_string (str ''A sample'') 1000 = str ''A sample''"
    by (simp add: sanitize_string_def string_defs)
  have nx: "next_id init = 1"
    by (simp add: init_def)
  from create_item_then_get [OF r_init v i n, of 5] v show ?thesis
    by (auto simp: s1 s2 nx)
qed

text \<open>
  The name \<open>"\x01 a"\<close> passes the validation of \<open>ItemCreate\<close> and becomes \<open>" a"\<close>: the
  trim comes before the control character is removed. \<open>create_item\<close> with this payload
  stores the name \<open>"a"\<close>, which is not the name of the payload.
\<close>

theorem create_item_resanitizes_counterexample:
  "ItemCreate_new (Some (0x01 # str '' a'')) (str ''a'') None =
     Inr \<lparr>name = Some (str '' a''), slug = str ''a'', description = None\<rparr> \<and>
   fst (create_item init \<lparr>name = Some (str '' a''), slug = str ''a'', description = None\<rparr> 0) =
     Inr \<lparr>name = Some (str ''a''), slug = str ''a'', description = None,
          item_id = 1, created_at = 0, updated_at = 0\<rparr> \<and>
   get_item (snd (create_item init \<lparr>name = Some (str '' a''), slug = str ''a'', description = None\<rparr> 0)) 1 =
     Some \<lparr>name = Some (str ''a''), slug = str ''a'', description = None,
          item_id = 1, created_at = 0, updated_at = 0\<rparr> \<and>
   str ''a'' \<noteq> str '' a''"
  by (simp add: model_defs string_defs)

lemma next_id_create: "next_id s \<le> next_id (snd (create_item s data now))"
  by (cases rule: create_item_cases [of s data now]) simp_all

lemma next_id_update: "next_id (snd (update_item s i upd now)) = next_id s"
  by (cases "map_of (items s) i") (simp_all add: update_item_absent update_item_present)

lemma next_id_delete: "next_id (snd (delete_item s i)) = next_id s"
  by (simp add: delete_item_def Let_def split: option.splits)

lemma later_next_id: "later s s' \<Longrightarrow> next_id s \<le> next_id s'"
proof (induction rule: later.induct)
  case (l_refl s)
  show ?case by simp
next
  case (l_create s s' data now)
  then show ?case using next_id_create [of s' data now] by simp
next
  case (l_update s s' i upd now)
  then show ?case by (simp add: next_id_update)
next
  case (l_delete s s' i)
  then show ?case by (simp add: next_id_delete)
qed

text \<open>
  C6. For every item stored in a reachable state, \<open>delete_item\<close> returns \<open>True\<close>;
  afterwards \<open>get_item\<close> on the id and \<open>get_item_by_slug\<close> on the slug of the item return
  \<open>None\<close>, and a create with that slug and any name of 1 to 200 characters succeeds,
  under another id. The counter is unchanged by the deletion and never decreases, so in
  every later state a successful create assigns an id above the deleted one.
\<close>

theorem delete_item_spec:
  assumes "reachable s" and "get_item s i = Some item"
  shows "\<exists>s'. delete_item s i = (Inr True, s') \<and>
    get_item s' i = None \<and>
    get_item_by_slug s' (slug item) = None \<and>
    next_id s' = next_id s \<and>
    (\<forall>v now. 1 \<le> length v \<and> length v \<le> 200 \<longrightarrow>
       (\<exists>new r. create_item s' \<lparr>name = Some v, slug = slug item, description = None\<rparr> now =
                   (Inr new, r) \<and> slug new = slug item \<and> item_id new \<noteq> i)) \<and>
    (\<forall>s'' data now new r. later s' s'' \<and> create_item s'' data now = (Inr new, r) \<longrightarrow>
       i < item_id new) \<and>
    (\<forall>s''. later s s'' \<longrightarrow> next_id s \<le> next_id s'')"
proof -
  have inv: "store_inv s"
    using assms(1) by (rule reachable_store_inv)
  note D = store_invD [OF inv]
  have m: "map_of (items s) i = Some item"
    using assms(2) by (simp add: get_item_def)
  have idx: "map_of (slug_index s) (slug item) = Some i"
    using D(1) [OF m] .
  let ?s' = "s\<lparr>items := AList.delete i (items s),
                slug_index := AList.delete (slug item) (slug_index s)\<rparr>"
  have del: "delete_item s i = (Inr True, ?s')"
    using m idx by (simp add: delete_item_present)
  have g: "get_item ?s' i = None"
    by (simp add: get_item_def delete_conv')
  have free: "map_of (slug_index ?s') (slug item) = None"
    by (simp add: delete_conv')
  then have gs: "get_item_by_slug ?s' (slug item) = None"
    by (simp add: get_item_by_slug_def)
  have lt: "i < next_id s"
    using D(3) [OF m] by simp
  have sf: "slug_field (slug item) = Inr (slug item)"
    using D(3) [OF m] by simp
  have reuse: "\<exists>new r. create_item ?s' \<lparr>name = Some v, slug = slug item, description = None\<rparr> now =
                   (Inr new, r) \<and> slug new = slug item \<and> item_id new \<noteq> i"
    if v: "1 \<le> length v \<and> length v \<le> 200" for v now
  proof -
    let ?d = "\<lparr>name = Some v, slug = slug item, description = None\<rparr>"
    let ?new = "\<lparr>name = Some (sanitize_string v 200), slug = slug item, description = None,
      item_id = next_id ?s', created_at = now, updated_at = now\<rparr>"
    have "Item_new (next_id ?s') (name ?d) (slug ?d) (description ?d) now now = Inr ?new"
      unfolding Item_new_Inr using v sf by (auto simp: name_field_def description_field_def)
    moreover have "map_of (slug_index ?s') (slug ?d) = None"
      using free by simp
    ultimately have "create_item ?s' ?d now =
       (Inr ?new, ?s'\<lparr>items := AList.update (next_id ?s') ?new (items ?s'),
                    slug_index := AList.update (slug ?d) (next_id ?s') (slug_index ?s'),
                    next_id := next_id ?s' + 1\<rparr>)"
      by (rule create_item_stored [rotated])
    moreover have "slug ?new = slug item" "item_id ?new \<noteq> i"
      using lt by simp_all
    ultimately show ?thesis by blast
  qed
  have never: "i < item_id new"
    if h: "later ?s' s'' \<and> create_item s'' data now = (Inr new, r)" for s'' data now new r
  proof -
    from h have l: "later ?s' s''" and c: "create_item s'' data now = (Inr new, r)"
      by simp_all
    have "next_id ?s' \<le> next_id s''"
      using l by (rule later_next_id)
    moreover have "item_id new = next_id s''"
      using c by (rule create_item_id)
    ultimately show ?thesis using lt by simp
  qed
  have mono: "\<forall>s''. later s s'' \<longrightarrow> next_id s \<le> next_id s''"
    by (simp add: later_next_id)
  have n: "next_id ?s' = next_id s"
    by simp
  from del g gs n reuse never mono show ?thesis
    by (intro exI [of _ ?s']) blast
qed

theorem delete_item_spec_witness:
  "get_item (snd (create_item init \<lparr>name = Some (str ''A''), slug = str ''a'', description = None\<rparr> 0)) 1 =
     Some \<lparr>name = Some (str ''A''), slug = str ''a'', description = None,
           item_id = 1, created_at = 0, updated_at = 0\<rparr> \<and>
   delete_item (snd (create_item init \<lparr>name = Some (str ''A''), slug = str ''a'', description = None\<rparr> 0)) 1 =
     (Inr True, \<lparr>items = [], next_id = 2, slug_index = []\<rparr>) \<and>
   get_item \<lparr>items = [], next_id = 2, slug_index = []\<rparr> 1 = None \<and>
   get_item_by_slug \<lparr>items = [], next_id = 2, slug_index = []\<rparr> (str ''a'') = None \<and>
   fst (create_item \<lparr>items = [], next_id = 2, slug_index = []\<rparr>
          \<lparr>name = Some (str ''B''), slug = str ''a'', description = None\<rparr> 3) =
     Inr \<lparr>name = Some (str ''B''), slug = str ''a'', description = None,
          item_id = 2, created_at = 3, updated_at = 3\<rparr>"
proof -
  let ?a = "\<lparr>name = Some (str ''A''), slug = str ''a'', description = None\<rparr>"
  let ?item = "\<lparr>name = Some (str ''A''), slug = str ''a'', description = None,
           item_id = 1, created_at = 0, updated_at = 0\<rparr>"
  have r: "reachable (snd (create_item init ?a 0))"
    by (rule r_create [OF r_init])
  have c: "snd (create_item init ?a 0) =
     \<lparr>items = [(1, ?item)], next_id = 2, slug_index = [(str ''a'', 1)]\<rparr>"
    by (simp add: model_defs string_defs)
  have h: "get_item (snd (create_item init ?a 0)) 1 = Some ?item"
    unfolding c by (simp add: get_item_def)
  have d: "delete_item \<lparr>items = [(1, ?item)], next_id = 2, slug_index = [(str ''a'', 1)]\<rparr> 1 =
     (Inr True, \<lparr>items = [], next_id = 2, slug_index = []\<rparr>)"
    by (simp add: delete_item_def AList.delete_eq)
  have n: "fst (create_item \<lparr>items = [], next_id = 2, slug_index = []\<rparr>
          \<lparr>name = Some (str ''B''), slug = str ''a'', description = None\<rparr> 3) =
     Inr \<lparr>name = Some (str ''B''), slug = str ''a'', description = None,
          item_id = 2, created_at = 3, updated_at = 3\<rparr>"
    by (simp add: model_defs string_defs)
  from delete_item_spec [OF r h] h n show ?thesis
    unfolding c d by (simp add: get_item_def get_item_by_slug_def)
qed

lemma py_slice_nonneg:
  assumes "0 \<le> skip" and "0 \<le> limit"
  shows "py_slice xs skip (skip + limit) = take (nat limit) (drop (nat skip) xs)"
proof (cases "nat skip \<le> length xs")
  case True
  have "take (min (nat limit) (length (drop (nat skip) xs))) (drop (nat skip) xs) =
      take (nat limit) (drop (nat skip) xs)"
    by (cases "nat limit \<le> length (drop (nat skip) xs)") (simp_all add: min_def)
  moreover have "min (nat skip + nat limit) (length xs) - nat skip =
      min (nat limit) (length (drop (nat skip) xs))"
    unfolding length_drop using True by arith
  ultimately show ?thesis
    using assms True by (simp add: py_slice_def slice_index_def nat_add_distrib min_absorb1)
next
  case False
  then show ?thesis
    using assms by (simp add: py_slice_def slice_index_def)
qed

lemma py_slice_same: "py_slice xs a a = []"
  by (simp add: py_slice_def)

lemma py_slice_take_drop: "\<exists>n m. py_slice xs a b = take n (drop m xs)"
  unfolding py_slice_def Let_def by blast

lemma length_py_slice:
  "0 \<le> limit \<Longrightarrow> int (length (py_slice xs skip (skip + limit))) \<le> limit"
  by (auto simp: py_slice_def slice_index_def Let_def min_def)

lemma sorted_py_slice:
  assumes "sorted (map f xs)"
  shows "sorted (map f (py_slice xs a b))"
proof -
  obtain n m where "py_slice xs a b = take n (drop m xs)"
    using py_slice_take_drop by blast
  then have "map f (py_slice xs a b) = take n (drop m (map f xs))"
    by (simp add: take_map drop_map)
  with assms show ?thesis
    by (simp add: sorted_wrt_take sorted_wrt_drop)
qed

lemma distinct_py_slice:
  assumes "distinct (map f xs)"
  shows "distinct (map f (py_slice xs a b))"
proof -
  obtain n m where "py_slice xs a b = take n (drop m xs)"
    using py_slice_take_drop by blast
  then have "map f (py_slice xs a b) = take n (drop m (map f xs))"
    by (simp add: take_map drop_map)
  with assms show ?thesis
    by simp
qed

lemma store_inv_ids:
  assumes "store_inv s"
  shows "map item_id (map snd (items s)) = map fst (items s)"
proof -
  have "item_id (snd x) = fst x" if "x \<in> set (items s)" for x
  proof -
    from that have "map_of (items s) (fst x) = Some (snd x)"
      using store_inv_distinct(1) [OF assms] by simp
    from store_invD(3) [OF assms this] show ?thesis by simp
  qed
  then show ?thesis by simp
qed

lemma distinct_map_insort_key:
  "distinct (map f (insort_key f x ys)) \<longleftrightarrow> f x \<notin> f ` set ys \<and> distinct (map f ys)"
  by (induction ys) (auto simp: set_insort_key)

lemma distinct_map_sort_key: "distinct (map f (sort_key f xs)) \<longleftrightarrow> distinct (map f xs)"
  by (induction xs) (simp_all add: distinct_map_insort_key)

lemma distinct_sort_key_ids:
  assumes "store_inv s"
  shows "distinct (map item_id (sort_key item_id (map snd (items s))))"
  unfolding distinct_map_sort_key store_inv_ids [OF assms]
  by (rule store_inv_distinct(1) [OF assms])

lemma live_items:
  assumes "store_inv s"
  shows "set (map snd (items s)) = {item. \<exists>i. get_item s i = Some item}"
  using store_inv_distinct(1) [OF assms] by (force simp: get_item_def)

text \<open>
  C3, amended. For skip and limit that are not negative, \<open>list_items\<close> returns the
  stored items in ascending order of id, without the first skip of them and at most limit
  of them; for limit 0 the result is empty whatever skip is. For all integers skip and
  limit the result is sorted by id, and has at most limit items when limit is not
  negative. In a reachable state the ids listed are distinct, and the whole list holds
  exactly the items \<open>get_item\<close> finds.
\<close>

theorem list_items_spec:
  "(0 \<le> skip \<and> 0 \<le> limit \<longrightarrow>
      list_items s skip limit =
        take (nat limit) (drop (nat skip) (sort_key item_id (map snd (items s))))) \<and>
   (limit = 0 \<longrightarrow> list_items s skip limit = []) \<and>
   sorted (map item_id (list_items s skip limit)) \<and>
   (0 \<le> limit \<longrightarrow> int (length (list_items s skip limit)) \<le> limit) \<and>
   (reachable s \<longrightarrow>
      set (list_items s 0 (int (length (items s)))) = {item. \<exists>i. get_item s i = Some item} \<and>
      distinct (map item_id (list_items s skip limit)))"
proof -
  let ?all = "sort_key item_id (map snd (items s))"
  have a: "0 \<le> skip \<and> 0 \<le> limit \<longrightarrow>
      list_items s skip limit = take (nat limit) (drop (nat skip) ?all)"
    by (simp add: list_items_def py_slice_nonneg)
  have b: "limit = 0 \<longrightarrow> list_items s skip limit = []"
    by (simp add: list_items_def py_slice_same)
  have c: "sorted (map item_id (list_items s skip limit))"
    unfolding list_items_def Let_def by (rule sorted_py_slice) simp
  have d: "0 \<le> limit \<longrightarrow> int (length (list_items s skip limit)) \<le> limit"
    by (simp add: list_items_def length_py_slice)
  have e: "set (list_items s 0 (int (length (items s)))) = {item. \<exists>i. get_item s i = Some item} \<and>
      distinct (map item_id (list_items s skip limit))" if "reachable s"
  proof -
    have inv: "store_inv s"
      using that by (rule reachable_store_inv)
    have "list_items s 0 (int (length (items s))) = ?all"
      using py_slice_nonneg [of 0 "int (length (items s))" ?all] by (simp add: list_items_def)
    then have "set (list_items s 0 (int (length (items s)))) = set (map snd (items s))"
      by simp
    moreover have "distinct (map item_id (list_items s skip limit))"
      unfolding list_items_def Let_def
      by (rule distinct_py_slice) (rule distinct_sort_key_ids [OF inv])
    ultimately show ?thesis
      using live_items [OF inv] by simp
  qed
  from a b c d e show ?thesis by blast
qed

theorem list_items_spec_witness:
  "reachable
     (snd (create_item (snd (create_item (snd (create_item (snd (create_item (snd (create_item init
        \<lparr>name = Some (str ''0''), slug = str ''item-0'', description = None\<rparr> 0))
        \<lparr>name = Some (str ''1''), slug = str ''item-1'', description = None\<rparr> 1))
        \<lparr>name = Some (str ''2''), slug = str ''item-2'', description = None\<rparr> 2))
        \<lparr>name = Some (str ''3''), slug = str ''item-3'', description = None\<rparr> 3))
        \<lparr>name = Some (str ''4''), slug = str ''item-4'', description = None\<rparr> 4)) \<and>
   map slug (list_items
     (snd (create_item (snd (create_item (snd (create_item (snd (create_item (snd (create_item init
        \<lparr>name = Some (str ''0''), slug = str ''item-0'', description = None\<rparr> 0))
        \<lparr>name = Some (str ''1''), slug = str ''item-1'', description = None\<rparr> 1))
        \<lparr>name = Some (str ''2''), slug = str ''item-2'', description = None\<rparr> 2))
        \<lparr>name = Some (str ''3''), slug = str ''item-3'', description = None\<rparr> 3))
        \<lparr>name = Some (str ''4''), slug = str ''item-4'', description = None\<rparr> 4))
     2 3) = [str ''item-2'', str ''item-3'', str ''item-4''] \<and>
   map item_id (list_items
     (snd (create_item (snd (create_item (snd (create_item (snd (create_item (snd (create_item init
        \<lparr>name = Some (str ''0''), slug = str ''item-0'', description = None\<rparr> 0))
        \<lparr>name = Some (str ''1''), slug = str ''item-1'', description = None\<rparr> 1))
        \<lparr>name = Some (str ''2''), slug = str ''item-2'', description = None\<rparr> 2))
        \<lparr>name = Some (str ''3''), slug = str ''item-3'', description = None\<rparr> 3))
        \<lparr>name = Some (str ''4''), slug = str ''item-4'', description = None\<rparr> 4))
     2 3) = [3, 4, 5]"
proof -
  let ?s1 = "snd (create_item init
        \<lparr>name = Some (str ''0''), slug = str ''item-0'', description = None\<rparr> 0)"
  let ?s2 = "snd (create_item ?s1
        \<lparr>name = Some (str ''1''), slug = str ''item-1'', description = None\<rparr> 1)"
  let ?s3 = "snd (create_item ?s2
        \<lparr>name = Some (str ''2''), slug = str ''item-2'', description = None\<rparr> 2)"
  let ?s4 = "snd (create_item ?s3
        \<lparr>name = Some (str ''3''), slug = str ''item-3'', description = None\<rparr> 3)"
  let ?s5 = "snd (create_item ?s4
        \<lparr>name = Some (str ''4''), slug = str ''item-4'', description = None\<rparr> 4)"
  let ?i = "\<lambda>k c. \<lparr>name = Some [c], slug = str ''item-'' @ [c], description = None,
           item_id = k, created_at = k - 1, updated_at = k - 1\<rparr>"
  have r: "reachable ?s5"
    by (intro r_create r_init)
  have e1: "?s1 = \<lparr>items = [(1, ?i 1 48)], next_id = 2, slug_index = [(str ''item-0'', 1)]\<rparr>"
    by (simp add: model_defs string_defs)
  have e2: "?s2 = \<lparr>items = [(1, ?i 1 48), (2, ?i 2 49)], next_id = 3,
      slug_index = [(str ''item-0'', 1), (str ''item-1'', 2)]\<rparr>"
    unfolding e1 by (simp add: model_defs string_defs)
  have e3: "?s3 = \<lparr>items = [(1, ?i 1 48), (2, ?i 2 49), (3, ?i 3 50)], next_id = 4,
      slug_index = [(str ''item-0'', 1), (str ''item-1'', 2), (str ''item-2'', 3)]\<rparr>"
    unfolding e2 by (simp add: model_defs string_defs)
  have e4: "?s4 = \<lparr>items = [(1, ?i 1 48), (2, ?i 2 49), (3, ?i 3 50), (4, ?i 4 51)], next_id = 5,
      slug_index = [(str ''item-0'', 1), (str ''item-1'', 2), (str ''item-2'', 3),
        (str ''item-3'', 4)]\<rparr>"
    unfolding e3 by (simp add: model_defs string_defs)
  have e5: "?s5 = \<lparr>items = [(1, ?i 1 48), (2, ?i 2 49), (3, ?i 3 50), (4, ?i 4 51), (5, ?i 5 52)],
      next_id = 6,
      slug_index = [(str ''item-0'', 1), (str ''item-1'', 2), (str ''item-2'', 3),
        (str ''item-3'', 4), (str ''item-4'', 5)]\<rparr>"
    unfolding e4 by (simp add: model_defs string_defs)
  have l: "list_items ?s5 2 3 = take (nat 3) (drop (nat 2) (sort_key item_id (map snd (items ?s5))))"
    using list_items_spec [of 2 3 ?s5] by simp
  have "list_items ?s5 2 3 = [?i 3 50, ?i 4 51, ?i 5 52]"
    unfolding l unfolding e5 by simp
  then have "map slug (list_items ?s5 2 3) = [str ''item-2'', str ''item-3'', str ''item-4'']"
    "map item_id (list_items ?s5 2 3) = [3, 4, 5]"
    by (simp_all add: str_def)
  with r show ?thesis by blast
qed

text \<open>
  With two items stored, \<open>list_items(skip=-1, limit=100)\<close> returns the last item and
  \<open>list_items(skip=0, limit=-1)\<close> returns the first: a negative bound of the slice
  \<open>all_items[skip : skip + limit]\<close> counts from the end of the list.
\<close>

theorem list_items_negative_counterexample:
  "list_items
     (snd (create_item (snd (create_item init
        \<lparr>name = Some (str ''0''), slug = str ''item-0'', description = None\<rparr> 0))
        \<lparr>name = Some (str ''1''), slug = str ''item-1'', description = None\<rparr> 1))
     (- 1) 100 =
     [\<lparr>name = Some (str ''1''), slug = str ''item-1'', description = None,
       item_id = 2, created_at = 1, updated_at = 1\<rparr>] \<and>
   list_items
     (snd (create_item (snd (create_item init
        \<lparr>name = Some (str ''0''), slug = str ''item-0'', description = None\<rparr> 0))
        \<lparr>name = Some (str ''1''), slug = str ''item-1'', description = None\<rparr> 1))
     0 (- 1) =
     [\<lparr>name = Some (str ''0''), slug = str ''item-0'', description = None,
       item_id = 1, created_at = 0, updated_at = 0\<rparr>]"
  by (simp add: model_defs string_defs)

end
